theory Spec2Isabelle
  imports Complex_Main "HOL-Library.Char_ord" "HOL-Library.List_Lexorder" "HOL-Library.Multiset"
begin

section \<open>Explosion profiling: a shallow embedding of the two pipelines\<close>

text \<open>
  The repository has two entry points. \<^verbatim>\<open>example_explode_analysis.py\<close> is a script with
  its own \<^verbatim>\<open>levenshtein\<close> and \<^verbatim>\<open>jaro_winkler\<close>; \<^verbatim>\<open>profile_exploded.py\<close> is the
  library-backed pipeline (\<^verbatim>\<open>rapidfuzz\<close>, \<^verbatim>\<open>dateutil\<close>, \<^verbatim>\<open>pandas\<close>).
  Functions of external libraries are parameters of the model: the date parser
  (\<^verbatim>\<open>dateutil.parser.parse\<close>) and, for \<^verbatim>\<open>profile_exploded.py\<close>, the two
  \<^verbatim>\<open>rapidfuzz\<close> metrics. Python floats are modelled by exact rationals, the threshold
  \<^verbatim>\<open>0.88\<close> by \<open>88 / 100\<close> and the default \<^verbatim>\<open>p = 0.1\<close> by \<open>1 / 10\<close>.
  Strings are lists of characters; \<^verbatim>\<open>pandas\<close> operations are modelled by their
  results on frames that are lists of rows.
\<close>

subsection \<open>Errors\<close>

datatype error = ValueError | KeyError | IndexError | ParserError | OverflowError

fun mapM :: "('a \<Rightarrow> error + 'b) \<Rightarrow> 'a list \<Rightarrow> error + 'b list" where
  "mapM f [] = Inr []"
| "mapM f (x # xs) =
     (case f x of
        Inl e \<Rightarrow> Inl e
      | Inr y \<Rightarrow> (case mapM f xs of Inl e \<Rightarrow> Inl e | Inr ys \<Rightarrow> Inr (y # ys)))"

subsection \<open>\<^verbatim>\<open>levenshtein\<close> (example\_explode\_analysis.py, lines 10-23)\<close>

text \<open>
  One pass of the inner loop body: \<^verbatim>\<open>ins = prev[j] + 1\<close>, \<^verbatim>\<open>rem = curr[j-1] + 1\<close>,
  \<^verbatim>\<open>sub = prev[j-1] + (ca != cb)\<close>, \<^verbatim>\<open>curr.append(min(ins, rem, sub))\<close>.
  The row \<^verbatim>\<open>curr\<close> is called \<open>cur\<close> here.
\<close>

definition inner_step :: "char \<Rightarrow> nat list \<Rightarrow> nat list \<Rightarrow> nat \<times> char \<Rightarrow> nat list" where
  "inner_step ca prev cur jc =
     (case jc of (j, cb) \<Rightarrow>
        let ins = prev ! j + 1;
            rem = cur ! (j - 1) + 1;
            sub = prev ! (j - 1) + (if ca \<noteq> cb then 1 else 0)
        in cur @ [min ins (min rem sub)])"

text \<open>The body of the outer loop: \<^verbatim>\<open>curr = [i]\<close>, the inner loop over \<^verbatim>\<open>enumerate(b, 1)\<close>,
  and the row that becomes \<^verbatim>\<open>prev\<close>.\<close>

definition lev_row :: "string \<Rightarrow> nat list \<Rightarrow> nat \<times> char \<Rightarrow> nat list" where
  "lev_row b prev ic = (case ic of (i, ca) \<Rightarrow> foldl (inner_step ca prev) [i] (enumerate 1 b))"

text \<open>
  The function: the arguments are strings, so that \<^verbatim>\<open>a or ""\<close> is \<^verbatim>\<open>a\<close>; they are
  swapped when the first is the shorter one; \<^verbatim>\<open>prev\<close> starts as
  \<^verbatim>\<open>list(range(len(b) + 1))\<close> and the result is \<^verbatim>\<open>prev[-1]\<close>, the last element of a
  row that is never empty.
\<close>

definition levenshtein :: "string \<Rightarrow> string \<Rightarrow> nat" where
  "levenshtein a0 b0 =
     (let (a, b) = (if length a0 < length b0 then (b0, a0) else (a0, b0));
          prev = foldl (lev_row b) [0..<length b + 1] (enumerate 1 a)
      in last prev)"

text \<open>
  The textbook recurrence of the edit distance, used to reason about the loop:
  \<open>ed\<close> recurses on the heads, \<open>edr\<close> is the same recurrence read from the right,
  which is the direction in which the rows of the table are filled.
\<close>

fun ed :: "'a list \<Rightarrow> 'a list \<Rightarrow> nat" where
  "ed [] ys = length ys"
| "ed (x # xs) [] = Suc (length xs)"
| "ed (x # xs) (y # ys) =
     min (ed xs (y # ys) + 1) (min (ed (x # xs) ys + 1) (ed xs ys + (if x \<noteq> y then 1 else 0)))"

definition edr :: "'a list \<Rightarrow> 'a list \<Rightarrow> nat" where
  "edr xs ys = ed (rev xs) (rev ys)"

definition dp_row :: "'a list \<Rightarrow> 'a list \<Rightarrow> nat list" where
  "dp_row xs b = map (\<lambda>j. edr xs (take j b)) [0..<Suc (length b)]"

subsection \<open>\<^verbatim>\<open>jaro_winkler\<close> (example\_explode\_analysis.py, lines 26-48)\<close>

text \<open>
  \<^verbatim>\<open>range(max(0, i-match_dist), min(i+match_dist+1, len2))\<close> with
  \<^verbatim>\<open>match_dist = max(len1, len2) // 2 - 1\<close>, an integer that is \<open>-1\<close> for strings
  of length at most one; the range is then empty.
\<close>

definition match_dist :: "nat \<Rightarrow> nat \<Rightarrow> int" where
  "match_dist len1 len2 = int (max len1 len2) div 2 - 1"

definition match_window :: "nat \<Rightarrow> nat \<Rightarrow> nat \<Rightarrow> nat list" where
  "match_window len1 len2 i =
     [nat (max 0 (int i - match_dist len1 len2))..<
      nat (min (int i + match_dist len1 len2 + 1) (int len2))]"

text \<open>The body of the loop over \<^verbatim>\<open>i\<close>: the first free \<^verbatim>\<open>j\<close> of the window with
  \<^verbatim>\<open>s1[i] == s2[j]\<close> is flagged and the inner loop breaks.\<close>

definition match_step ::
  "string \<Rightarrow> string \<Rightarrow> bool list \<times> bool list \<times> nat \<Rightarrow> nat \<Rightarrow> bool list \<times> bool list \<times> nat" where
  "match_step s1 s2 st i =
     (case st of (s1m, s2m, matches) \<Rightarrow>
        (case find (\<lambda>j. \<not> s2m ! j \<and> s1 ! i = s2 ! j) (match_window (length s1) (length s2) i) of
           None \<Rightarrow> (s1m, s2m, matches)
         | Some j \<Rightarrow> (s1m[i := True], s2m[j := True], matches + 1)))"

definition match_loop :: "string \<Rightarrow> string \<Rightarrow> bool list \<times> bool list \<times> nat" where
  "match_loop s1 s2 =
     foldl (match_step s1 s2)
       (replicate (length s1) False, replicate (length s2) False, 0) [0..<length s1]"

text \<open>The loop over \<^verbatim>\<open>zip(s1, s2)\<close> that counts the shared leading run and breaks at the
  first difference.\<close>

definition common_prefix :: "string \<Rightarrow> string \<Rightarrow> nat" where
  "common_prefix s1 s2 = length (takeWhile (\<lambda>(a, b). a = b) (zip s1 s2))"

text \<open>\<^verbatim>\<open>trans\<close>: half the number of positions where the two matched sequences differ.\<close>

definition transpositions :: "string \<Rightarrow> string \<Rightarrow> bool list \<Rightarrow> bool list \<Rightarrow> rat" where
  "transpositions s1 s2 s1m s2m =
     (let s1r = map (\<lambda>i. s1 ! i) (filter (\<lambda>i. s1m ! i) [0..<length s1]);
          s2r = map (\<lambda>j. s2 ! j) (filter (\<lambda>j. s2m ! j) [0..<length s2])
      in of_nat (length (filter (\<lambda>(a, b). a \<noteq> b) (zip s1r s2r))) / 2)"

text \<open>The Jaro score \<^verbatim>\<open>j\<close> of line 41, for a positive number of matches.\<close>

definition jaro_score :: "string \<Rightarrow> string \<Rightarrow> rat" where
  "jaro_score s1 s2 =
     (case match_loop s1 s2 of (s1m, s2m, matches) \<Rightarrow>
        let trans = transpositions s1 s2 s1m s2m
        in (of_nat matches / of_nat (length s1) + of_nat matches / of_nat (length s2)
             + (of_nat matches - trans) / of_nat matches) / 3)"

text \<open>The last line: \<^verbatim>\<open>j + prefix*p*(1-j)\<close>.\<close>

definition winkler :: "rat \<Rightarrow> nat \<Rightarrow> rat \<Rightarrow> rat" where
  "winkler j prefix p = j + of_nat prefix * p * (1 - j)"

definition jaro_winkler_p :: "string \<Rightarrow> string \<Rightarrow> rat \<Rightarrow> rat" where
  "jaro_winkler_p s1 s2 p =
     (if s1 = s2 then 1
      else if snd (snd (match_loop s1 s2)) = 0 then 0
      else winkler (jaro_score s1 s2) (min (common_prefix s1 s2) 4) p)"

text \<open>Every call in the repository uses the default \<^verbatim>\<open>p = 0.1\<close>.\<close>

definition jaro_winkler :: "string \<Rightarrow> string \<Rightarrow> rat" where
  "jaro_winkler s1 s2 = jaro_winkler_p s1 s2 (1 / 10)"



text \<open>The invariant of the matching loop after the positions below \<open>n\<close>: the flag lists keep
  their lengths, \<^verbatim>\<open>matches\<close> counts the flags set in either list, and no position from
  \<open>n\<close> on is flagged in \<open>s1m\<close>.\<close>

definition match_inv :: "nat \<Rightarrow> nat \<Rightarrow> nat \<Rightarrow> bool list \<times> bool list \<times> nat \<Rightarrow> bool" where
  "match_inv len1 len2 n st =
     (case st of (s1m, s2m, matches) \<Rightarrow>
        length s1m = len1 \<and> length s2m = len2 \<and>
        matches = length (filter id s1m) \<and> matches = length (filter id s2m) \<and>
        (\<forall>k. n \<le> k \<and> k < len1 \<longrightarrow> \<not> s1m ! k))"

subsection \<open>\<^verbatim>\<open>mismatch_positions\<close> and \<^verbatim>\<open>date_exploded\<close> (the same text in both files)\<close>

definition mismatch_positions :: "string \<Rightarrow> string \<Rightarrow> nat list" where
  "mismatch_positions a b = map fst (filter (\<lambda>(i, (ca, cb)). ca \<noteq> cb) (enumerate 0 (zip a b)))"

text \<open>
  What \<^verbatim>\<open>dateutil.parser.parse(s, dayfirst=True)\<close> returns: a datetime, or an exception.
  The parser is a library function and a parameter of the model.
\<close>

record datetime =
  dt_year :: int
  dt_month :: int
  dt_day :: int
  dt_hour :: int
  dt_minute :: int
  dt_second :: int
  dt_microsecond :: int

type_synonym parser = "string \<Rightarrow> error + datetime"

text \<open>\<^verbatim>\<open>.date()\<close>: the calendar date of a datetime.\<close>

definition date_of :: "datetime \<Rightarrow> int \<times> int \<times> int" where
  "date_of d = (dt_year d, dt_month d, dt_day d)"

text \<open>The body of the \<^verbatim>\<open>try\<close>: either operand may raise.\<close>

definition date_exploded_try :: "parser \<Rightarrow> string \<Rightarrow> string \<Rightarrow> error + bool" where
  "date_exploded_try parse ref var =
     (case parse ref of
        Inl e \<Rightarrow> Inl e
      | Inr d1 \<Rightarrow> (case parse var of Inl e \<Rightarrow> Inl e | Inr d2 \<Rightarrow> Inr (date_of d1 \<noteq> date_of d2)))"

text \<open>The bare \<^verbatim>\<open>except:\<close> turns every exception into \<^verbatim>\<open>True\<close>.\<close>

definition date_exploded :: "parser \<Rightarrow> string \<Rightarrow> string \<Rightarrow> bool" where
  "date_exploded parse ref var =
     (case date_exploded_try parse ref var of Inl e \<Rightarrow> True | Inr b \<Rightarrow> b)"

text \<open>
  A parser table for the scenarios of the specification, used to run the model on them:
  the ISO, slash and day-first spellings of 15 June 1985 and the ISO spelling of
  16 June 1985 are read as those days; every other string is refused.
\<close>

definition midnight :: "int \<Rightarrow> int \<Rightarrow> int \<Rightarrow> datetime" where
  "midnight y m d =
     \<lparr>dt_year = y, dt_month = m, dt_day = d, dt_hour = 0, dt_minute = 0, dt_second = 0,
      dt_microsecond = 0\<rparr>"

definition scenario_parse :: parser where
  "scenario_parse s =
     (if s \<in> set [''1985-06-15'', ''1985/06/15'', ''15-06-1985''] then Inr (midnight 1985 6 15)
      else if s = ''1985-06-16'' then Inr (midnight 1985 6 16)
      else Inl ParserError)"

subsection \<open>Data frames\<close>

text \<open>
  A row of the input frame: the identifier, the timestamp (read by
  \<^verbatim>\<open>profile_exploded.py\<close> only) and one string per field column. Both pipelines
  work on string columns: the script lower-cases literal strings, \<^verbatim>\<open>main\<close> applies
  \<^verbatim>\<open>astype(str)\<close> before anything else, so no cell is null.
\<close>

record row =
  row_id :: int
  row_ts :: int
  row_vals :: "string \<Rightarrow> string"

text \<open>\<^verbatim>\<open>Series.unique()\<close>: the distinct values in order of first appearance.\<close>

definition unique :: "'a list \<Rightarrow> 'a list" where
  "unique xs = rev (remdups (rev xs))"

text \<open>\<^verbatim>\<open>Counter(xs).items()\<close>: each distinct value with its number of occurrences.\<close>

definition counter :: "'a list \<Rightarrow> ('a \<times> nat) list" where
  "counter xs = map (\<lambda>x. (x, count_list xs x)) (unique xs)"

definition group_rows :: "row list \<Rightarrow> int \<Rightarrow> row list" where
  "group_rows df rid = filter (\<lambda>r. row_id r = rid) df"

text \<open>\<^verbatim>\<open>groupby('id')\<close> iterates over the distinct identifiers in ascending order.\<close>

definition group_keys :: "row list \<Rightarrow> int list" where
  "group_keys df = sort (remdups (map row_id df))"

definition column :: "row list \<Rightarrow> string \<Rightarrow> string list" where
  "column df fld = map (\<lambda>r. row_vals r fld) df"

definition key_fields :: "string list" where
  "key_fields = [''first_name'', ''last_name'', ''postcode'']"

subsection \<open>The script: references (example\_explode\_analysis.py, lines 84-89)\<close>

text \<open>\<^verbatim>\<open>df.groupby('id')[fld].agg(lambda s: s.iloc[-1]).to_dict()\<close>, as its list of items
  and as the dictionary.\<close>

definition reference_items :: "row list \<Rightarrow> string \<Rightarrow> (int \<times> string) list" where
  "reference_items df fld = map (\<lambda>rid. (rid, last (column (group_rows df rid) fld))) (group_keys df)"

definition reference_by_id :: "row list \<Rightarrow> string \<Rightarrow> int \<rightharpoonup> string" where
  "reference_by_id df fld = map_of (reference_items df fld)"

subsection \<open>Metadata (example\_explode\_analysis.py, lines 92-118; profile\_exploded.py, lines 73-112)\<close>

text \<open>The \<^verbatim>\<open>info\<close> dictionary of one variant; a key that is not set is \<open>None\<close>.\<close>

record info =
  frequency :: nat
  edit_distance :: "nat option"
  low_similarity :: "bool option"
  mismatch_first4 :: "bool option"
  exploded :: "bool option"

text \<open>
  The body of the loop over \<^verbatim>\<open>freq.items()\<close>, which is the same in both files up to the
  metrics it calls: the script calls its own \<^verbatim>\<open>levenshtein\<close> and \<^verbatim>\<open>jaro_winkler\<close>,
  \<^verbatim>\<open>build_metadata\<close> calls \<^verbatim>\<open>rapidfuzz\<close>.
\<close>

definition variant_info ::
  "(string \<Rightarrow> string \<Rightarrow> rat) \<Rightarrow> (string \<Rightarrow> string \<Rightarrow> nat) \<Rightarrow> parser \<Rightarrow>
   string \<Rightarrow> string \<Rightarrow> string \<times> nat \<Rightarrow> string \<times> info" where
  "variant_info similarity distance parse fld ref_val vc =
     (case vc of (var, cnt) \<Rightarrow>
        let info = \<lparr>frequency = cnt, edit_distance = None, low_similarity = None,
                     mismatch_first4 = None, exploded = None\<rparr>
        in (var,
            if fld \<in> set [''first_name'', ''last_name''] then
              info\<lparr>edit_distance := Some (distance ref_val var),
                    low_similarity := Some (similarity ref_val var < 88 / 100),
                    mismatch_first4 := Some (list_ex (\<lambda>p. p < 4) (mismatch_positions ref_val var))\<rparr>
            else if fld \<in> set [''dob'', ''postcode''] then
              (if fld = ''dob'' then info\<lparr>exploded := Some (date_exploded parse ref_val var)\<rparr>
               else info\<lparr>edit_distance := Some (distance ref_val var)\<rparr>)
            else info))"

text \<open>The script: one pass of the loop over \<^verbatim>\<open>mapping.items()\<close>, ending in the assignment
  \<^verbatim>\<open>metadata[fld][ref_val] = {'variants': var_meta}\<close>.\<close>

definition metadata_step ::
  "parser \<Rightarrow> row list \<Rightarrow> string \<Rightarrow> (string \<rightharpoonup> (string \<times> info) list) \<Rightarrow> int \<times> string \<Rightarrow>
   (string \<rightharpoonup> (string \<times> info) list)" where
  "metadata_step parse df fld m item =
     (case item of (rid, ref_val) \<Rightarrow>
        let sub = group_rows df rid;
            variants = filter (\<lambda>v. v \<noteq> ref_val) (column sub fld);
            freq = counter variants;
            var_meta = map (variant_info jaro_winkler levenshtein parse fld ref_val) freq
        in m(ref_val \<mapsto> var_meta))"

definition metadata :: "parser \<Rightarrow> row list \<Rightarrow> string \<Rightarrow> (string \<rightharpoonup> (string \<times> info) list)" where
  "metadata parse df fld = foldl (metadata_step parse df fld) Map.empty (reference_items df fld)"

subsection \<open>The script: explosions (example\_explode\_analysis.py, lines 127-153)\<close>

definition explode_decision :: "parser \<Rightarrow> string \<Rightarrow> string \<Rightarrow> string \<Rightarrow> bool" where
  "explode_decision parse fld ref_val var =
     (if fld \<in> set [''first_name'', ''last_name''] then jaro_winkler ref_val var < 88 / 100
      else if fld = ''dob'' then date_exploded parse ref_val var
      else if fld = ''postcode'' then levenshtein ref_val var > 0
      else True)"

text \<open>The body of the loop over \<^verbatim>\<open>variants\<close>; the state is the list of the identifier and
  the flag \<^verbatim>\<open>exploded_any\<close>.\<close>

definition variant_step ::
  "parser \<Rightarrow> string \<Rightarrow> string \<Rightarrow> (string \<times> string) list \<times> bool \<Rightarrow> string \<Rightarrow>
   (string \<times> string) list \<times> bool" where
  "variant_step parse fld ref_val st var =
     (case st of (out, exploded_any) \<Rightarrow>
        if explode_decision parse fld ref_val var then (out @ [(fld, var)], True)
        else (out, exploded_any))"

text \<open>\<^verbatim>\<open>group[fld][group[fld] != ref_val].unique()\<close>: the distinct values of the group
  that differ from the reference.\<close>

definition variants_of :: "string \<Rightarrow> row list \<Rightarrow> string \<Rightarrow> string list" where
  "variants_of ref_val grp fld = unique (filter (\<lambda>v. v \<noteq> ref_val) (column grp fld))"

text \<open>The body of the loop over the fields, for one identifier: what it appends to
  \<^verbatim>\<open>explosions_by_id[rid]\<close>, the fallback included.\<close>

definition field_explosions ::
  "parser \<Rightarrow> string \<Rightarrow> string \<Rightarrow> row list \<Rightarrow> (string \<times> string) list" where
  "field_explosions parse fld ref_val grp =
     (let variants = variants_of ref_val grp fld;
          (out, exploded_any) = foldl (variant_step parse fld ref_val) ([], False) variants
      in if fld \<in> set key_fields \<and> \<not> exploded_any then out @ [(fld, ref_val)] else out)"

fun fields_loop ::
  "parser \<Rightarrow> row list \<Rightarrow> int \<Rightarrow> string list \<Rightarrow> (string \<times> string) list \<Rightarrow>
   error + (string \<times> string) list" where
  "fields_loop parse df rid [] out = Inr out"
| "fields_loop parse df rid (fld # flds) out =
     (case reference_by_id df fld rid of
        None \<Rightarrow> Inl KeyError
      | Some ref_val \<Rightarrow>
          fields_loop parse df rid flds (out @ field_explosions parse fld ref_val (group_rows df rid)))"

text \<open>\<^verbatim>\<open>explosions_by_id\<close> is a \<^verbatim>\<open>defaultdict(list)\<close>: an identifier gets an entry
  when something is appended for it.\<close>

definition explosions_by_id ::
  "parser \<Rightarrow> row list \<Rightarrow> string list \<Rightarrow> error + (int \<times> (string \<times> string) list) list" where
  "explosions_by_id parse df all_fields =
     (case mapM (\<lambda>rid. case fields_loop parse df rid all_fields [] of
                          Inl e \<Rightarrow> Inl e | Inr out \<Rightarrow> Inr (rid, out)) (group_keys df) of
        Inl e \<Rightarrow> Inl e
      | Inr items \<Rightarrow> Inr (filter (\<lambda>(rid, out). out \<noteq> []) items))"


subsection \<open>The script: combinations (example\_explode\_analysis.py, lines 162-208)\<close>

text \<open>
  A cell of \<^verbatim>\<open>grouped\<close>: the distinct variants that \<^verbatim>\<open>df_long\<close> holds for the identifier
  and the field, and the fill value \<^verbatim>\<open>[]\<close> where it holds none. The argument is the
  list \<^verbatim>\<open>explosions_by_id[rec_id]\<close>.
\<close>

definition grouped_cell :: "(string \<times> string) list \<Rightarrow> string \<Rightarrow> string list" where
  "grouped_cell pairs fld = unique (map snd (filter (\<lambda>(f, v). f = fld) pairs))"

text \<open>One pass of the loop that fills \<^verbatim>\<open>variant_lists\<close>.\<close>

definition variant_list ::
  "row list \<Rightarrow> int \<Rightarrow> (string \<times> string) list \<Rightarrow> string \<Rightarrow> error + string list" where
  "variant_list df rec_id pairs fld =
     (let exploded = grouped_cell pairs fld
      in if exploded \<noteq> [] then Inr exploded
         else (case reference_by_id df fld rec_id of
                 None \<Rightarrow> Inl KeyError
               | Some ref_val \<Rightarrow> Inr [ref_val]))"

text \<open>\<^verbatim>\<open>dict(kvs)\<close>: the last binding of a key wins.\<close>

definition py_dict :: "('k \<times> 'v) list \<Rightarrow> 'k \<rightharpoonup> 'v" where
  "py_dict kvs = map_of (rev kvs)"

text \<open>
  The rows that one identifier adds to \<^verbatim>\<open>rows\<close>: one dictionary per tuple of
  \<^verbatim>\<open>itertools.product(*variant_lists)\<close>. The entry \<^verbatim>\<open>"id"\<close> of the dictionary is the first
  component of the pair here.
\<close>

definition combination_rows ::
  "row list \<Rightarrow> string list \<Rightarrow> int \<times> (string \<times> string) list \<Rightarrow>
   error + (int \<times> (string \<rightharpoonup> string)) list" where
  "combination_rows df all_fields item =
     (case item of (rec_id, pairs) \<Rightarrow>
        (case mapM (variant_list df rec_id pairs) all_fields of
           Inl e \<Rightarrow> Inl e
         | Inr variant_lists \<Rightarrow>
             Inr (map (\<lambda>combo. (rec_id, py_dict (zip all_fields combo)))
                      (product_lists variant_lists))))"

text \<open>\<^verbatim>\<open>df_wide[["id"] + sorted(all_fields)]\<close>: the header and, for a row, its cells in
  that order; a cell that a dictionary does not define would be a missing value.\<close>

definition df_wide_columns :: "string list \<Rightarrow> string list" where
  "df_wide_columns all_fields = ''id'' # sort all_fields"

definition wide_row :: "string list \<Rightarrow> int \<times> (string \<rightharpoonup> string) \<Rightarrow> int \<times> string option list" where
  "wide_row all_fields r = (case r of (rec_id, d) \<Rightarrow> (rec_id, map d (sort all_fields)))"

text \<open>The whole table. With no row at all the frame has no column and the selection of
  \<^verbatim>\<open>"id"\<close> raises.\<close>

definition df_wide ::
  "parser \<Rightarrow> row list \<Rightarrow> string list \<Rightarrow> error + (int \<times> string option list) list" where
  "df_wide parse df all_fields =
     (case explosions_by_id parse df all_fields of
        Inl e \<Rightarrow> Inl e
      | Inr items \<Rightarrow>
          if items = [] then Inl KeyError
          else (case mapM (combination_rows df all_fields) items of
                  Inl e \<Rightarrow> Inl e
                | Inr rowss \<Rightarrow> Inr (map (wide_row all_fields) (concat rowss))))"

subsection \<open>profile\_exploded.py\<close>

text \<open>\<^verbatim>\<open>compute_frequencies\<close>: one row per distinct (identifier, value) of each field, in
  order of first appearance (\<^verbatim>\<open>sort=False\<close>), with the size of the group.\<close>

record freq_row =
  f_id :: int
  f_variant :: string
  f_frequency :: nat
  f_field :: string

definition compute_frequencies :: "row list \<Rightarrow> string list \<Rightarrow> freq_row list" where
  "compute_frequencies df flds =
     concat (map (\<lambda>fld.
        let keys = map (\<lambda>r. (row_id r, row_vals r fld)) df
        in map (\<lambda>(i, v). \<lparr>f_id = i, f_variant = v, f_frequency = count_list keys (i, v),
                            f_field = fld\<rparr>) (unique keys)) flds)"

text \<open>
  \<^verbatim>\<open>get_references\<close>. \<^verbatim>\<open>sort_values(ts_col)\<close> uses the default sorting kind, which is
  not stable: what is known of its result \<open>sdf\<close> is that it is the frame reordered by
  ascending timestamp. \<^verbatim>\<open>groupby(id_col).last()\<close> then keeps, for each identifier in
  ascending order, the last row of its group.
\<close>

definition sort_values_ts :: "row list \<Rightarrow> row list \<Rightarrow> bool" where
  "sort_values_ts df sdf = (mset sdf = mset df \<and> sorted (map row_ts sdf))"

definition get_references :: "row list \<Rightarrow> row list" where
  "get_references sdf = map (\<lambda>rid. last (group_rows sdf rid)) (group_keys sdf)"

text \<open>A row of \<^verbatim>\<open>merged\<close>: a row of \<^verbatim>\<open>freq_df\<close> with the reference of its identifier and
  field.\<close>

record merged_row =
  m_id :: int
  m_variant :: string
  m_frequency :: nat
  m_field :: string
  m_reference :: string

definition join_reference :: "freq_row \<Rightarrow> row \<Rightarrow> merged_row" where
  "join_reference f r =
     \<lparr>m_id = f_id f, m_variant = f_variant f, m_frequency = f_frequency f, m_field = f_field f,
      m_reference = row_vals r (f_field f)\<rparr>"

text \<open>\<^verbatim>\<open>build_metadata\<close>, for one field: the inner join on the identifier, the groups by
  reference in order of first appearance, and the \<^verbatim>\<open>Counter\<close> over the column
  \<^verbatim>\<open>variant\<close> of the rows that differ from the reference.\<close>

definition build_metadata ::
  "(string \<Rightarrow> string \<Rightarrow> rat) \<Rightarrow> (string \<Rightarrow> string \<Rightarrow> nat) \<Rightarrow> parser \<Rightarrow>
   freq_row list \<Rightarrow> row list \<Rightarrow> string \<Rightarrow> (string \<times> (string \<times> info) list) list" where
  "build_metadata similarity distance parse freq_df ref_df fld =
     (let f = filter (\<lambda>x. f_field x = fld) freq_df;
          merged = concat (map (\<lambda>x. map (join_reference x) (filter (\<lambda>r. row_id r = f_id x) ref_df)) f)
      in map (\<lambda>ref_val.
                let grp = filter (\<lambda>m. m_reference m = ref_val) merged;
                    subs = filter (\<lambda>m. m_variant m \<noteq> ref_val) grp;
                    freq = counter (map m_variant subs)
                in (ref_val, map (variant_info similarity distance parse fld ref_val) freq))
             (unique (map m_reference merged)))"

text \<open>\<^verbatim>\<open>should_explode\<close>, the function applied to every row of \<^verbatim>\<open>merged\<close>.\<close>

definition should_explode ::
  "(string \<Rightarrow> string \<Rightarrow> rat) \<Rightarrow> (string \<Rightarrow> string \<Rightarrow> nat) \<Rightarrow> parser \<Rightarrow> merged_row \<Rightarrow> bool" where
  "should_explode similarity distance parse r =
     (let fld = m_field r; ref = m_reference r; var = m_variant r
      in if var = ref then False
         else if fld \<in> set [''first_name'', ''last_name''] then similarity ref var < 88 / 100
         else if fld = ''dob'' then date_exploded parse ref var
         else if fld = ''postcode'' then distance ref var > 0
         else True)"

text \<open>
  \<^verbatim>\<open>DataFrame.any()\<close> reduces every column of the frame (\<^verbatim>\<open>id\<close>, \<^verbatim>\<open>variant\<close>,
  \<^verbatim>\<open>frequency\<close>, \<^verbatim>\<open>field\<close>, \<^verbatim>\<open>reference\<close>, \<^verbatim>\<open>explode\<close>) to one truth value and
  returns them as a Series. The truth value of a Series, which \<^verbatim>\<open>not\<close> asks for, is
  not defined in pandas: it raises \<^verbatim>\<open>ValueError\<close> for every Series.
\<close>

definition dataframe_any :: "(merged_row \<times> bool) list \<Rightarrow> bool list" where
  "dataframe_any rows =
     [list_ex (\<lambda>(m, e). m_id m \<noteq> 0) rows, list_ex (\<lambda>(m, e). m_variant m \<noteq> []) rows,
      list_ex (\<lambda>(m, e). m_frequency m \<noteq> 0) rows, list_ex (\<lambda>(m, e). m_field m \<noteq> []) rows,
      list_ex (\<lambda>(m, e). m_reference m \<noteq> []) rows, list_ex (\<lambda>(m, e). e) rows]"

definition series_truth :: "bool list \<Rightarrow> error + bool" where
  "series_truth s = Inl ValueError"

text \<open>The loop over the fields that is to add the reference of a key field with no
  exploded variant (lines 153-158).\<close>

fun fallback_loop ::
  "row list \<Rightarrow> int \<Rightarrow> (merged_row \<times> bool) list \<Rightarrow> string list \<Rightarrow> (string \<times> string) list \<Rightarrow>
   error + (string \<times> string) list" where
  "fallback_loop ref_df rid exploded_rows [] pairs = Inr pairs"
| "fallback_loop ref_df rid exploded_rows (fld # flds) pairs =
     (case filter (\<lambda>r. row_id r = rid) ref_df of
        [] \<Rightarrow> Inl IndexError
      | r # _ \<Rightarrow>
          let refs_for_id = row_vals r fld
          in if fld \<in> set key_fields then
               (case series_truth (dataframe_any (filter (\<lambda>(m, e). m_field m = fld) exploded_rows)) of
                  Inl e \<Rightarrow> Inl e
                | Inr b \<Rightarrow>
                    fallback_loop ref_df rid exploded_rows flds
                      (if \<not> b then pairs @ [(fld, refs_for_id)] else pairs))
             else fallback_loop ref_df rid exploded_rows flds pairs)"

text \<open>\<^verbatim>\<open>find_explosions\<close>: the melt and inner join on identifier and field, the column
  \<^verbatim>\<open>explode\<close>, and the loop over the groups in ascending order of identifier.\<close>

definition find_explosions ::
  "(string \<Rightarrow> string \<Rightarrow> rat) \<Rightarrow> (string \<Rightarrow> string \<Rightarrow> nat) \<Rightarrow> parser \<Rightarrow>
   freq_row list \<Rightarrow> row list \<Rightarrow> string list \<Rightarrow> error + (int \<times> (string \<times> string) list) list" where
  "find_explosions similarity distance parse freq_df ref_df flds =
     (let merged = concat (map (\<lambda>x. map (join_reference x)
                      (filter (\<lambda>r. row_id r = f_id x \<and> f_field x \<in> set flds) ref_df)) freq_df);
          merged = map (\<lambda>m. (m, should_explode similarity distance parse m)) merged
      in mapM (\<lambda>rid.
           let grp = filter (\<lambda>(m, e). m_id m = rid) merged;
               exploded_rows = filter (\<lambda>(m, e). e) grp;
               pairs = map (\<lambda>(m, e). (m_field m, m_variant m)) exploded_rows
           in (case fallback_loop ref_df rid exploded_rows flds pairs of
                 Inl e \<Rightarrow> Inl e
               | Inr pairs \<Rightarrow> Inr (rid, pairs)))
         (sort (remdups (map (\<lambda>(m, e). m_id m) merged))))"

subsection \<open>Frames of the scenarios\<close>

text \<open>Rows are written with the list of their cells; a column that is not listed is the
  empty string. The rows of every frame below are in ascending order of timestamp, without
  ties, so that each frame is its own \<^verbatim>\<open>sort_values(ts_col)\<close>, except
  \<open>late_first_df\<close>, which is given with its sorted form.\<close>

definition mk_row :: "int \<Rightarrow> int \<Rightarrow> (string \<times> string) list \<Rightarrow> row" where
  "mk_row i t cells =
     \<lparr>row_id = i, row_ts = t, row_vals = (\<lambda>f. case map_of cells f of Some v \<Rightarrow> v | None \<Rightarrow> [])\<rparr>"

text \<open>Identifier 1 with the first names john, jon, jahn, in this order of rows and time.\<close>

definition names_df :: "row list" where
  "names_df =
     [mk_row 1 0 [(''first_name'', ''john'')], mk_row 1 1 [(''first_name'', ''jon'')],
      mk_row 1 2 [(''first_name'', ''jahn'')]]"

text \<open>Identifier 2 with three times the postcode sw1a1aa.\<close>

definition postcodes_df :: "row list" where
  "postcodes_df =
     [mk_row 2 0 [(''postcode'', ''sw1a1aa'')], mk_row 2 1 [(''postcode'', ''sw1a1aa'')],
      mk_row 2 2 [(''postcode'', ''sw1a1aa'')]]"

text \<open>Identifier 1 with two rows, the later one first, and the same frame ordered by
  timestamp.\<close>

definition late_first_df :: "row list" where
  "late_first_df = [mk_row 1 5 [(''first_name'', ''jahn'')], mk_row 1 2 [(''first_name'', ''john'')]]"

definition late_first_sorted :: "row list" where
  "late_first_sorted = [mk_row 1 2 [(''first_name'', ''john'')], mk_row 1 5 [(''first_name'', ''jahn'')]]"

text \<open>Identifiers 1 and 2 with the same reference \<open>m\<close> for the field \<open>sex\<close>:
  identifier 1 has the value \<open>male\<close> twice, identifier 2 the value \<open>f\<close> once.\<close>

definition shared_reference_df :: "row list" where
  "shared_reference_df =
     [mk_row 1 0 [(''sex'', ''male'')], mk_row 1 1 [(''sex'', ''male'')], mk_row 1 2 [(''sex'', ''m'')],
      mk_row 2 3 [(''sex'', ''f'')], mk_row 2 4 [(''sex'', ''m'')]]"

text \<open>The \<^verbatim>\<open>info\<close> of a field without metrics.\<close>

definition frequency_only :: "nat \<Rightarrow> info" where
  "frequency_only n =
     \<lparr>frequency = n, edit_distance = None, low_similarity = None, mismatch_first4 = None,
      exploded = None\<rparr>"

subsection \<open>Closed forms of the loops of the script\<close>

text \<open>What the loop over the fields leaves in \<^verbatim>\<open>explosions_by_id[rid]\<close>, the contents of
  \<^verbatim>\<open>variant_lists\<close> for an identifier, and the rows that the identifier adds to
  \<^verbatim>\<open>rows\<close>, written without the error cases; they are shown equal to the loops for
  the identifiers of the frame.\<close>

definition out_of :: "parser \<Rightarrow> row list \<Rightarrow> string list \<Rightarrow> int \<Rightarrow> (string \<times> string) list" where
  "out_of parse df all_fields rid =
     concat (map (\<lambda>fld. field_explosions parse fld (last (column (group_rows df rid) fld))
                          (group_rows df rid)) all_fields)"

definition vls_of :: "row list \<Rightarrow> string list \<Rightarrow> int \<Rightarrow> (string \<times> string) list \<Rightarrow> string list list" where
  "vls_of df all_fields rid pairs =
     map (\<lambda>fld. if grouped_cell pairs fld \<noteq> [] then grouped_cell pairs fld
                 else [last (column (group_rows df rid) fld)]) all_fields"

definition rows_of ::
  "row list \<Rightarrow> string list \<Rightarrow> int \<times> (string \<times> string) list \<Rightarrow> (int \<times> (string \<rightharpoonup> string)) list" where
  "rows_of df all_fields item =
     (case item of (rid, pairs) \<Rightarrow>
        map (\<lambda>combo. (rid, py_dict (zip all_fields combo)))
            (product_lists (vls_of df all_fields rid pairs)))"

text \<open>Identifiers 1 and 2 of the scenarios in one frame.\<close>

definition two_ids_df :: "row list" where
  "two_ids_df = names_df @ postcodes_df"

section \<open>Verification\<close>

subsection \<open>The edit distance recurrence is a metric\<close>

lemma ed_Nil2 [simp]: "ed xs [] = length xs"
  by (cases xs) auto

lemma ed_sym: "ed xs ys = ed ys xs"
  by (induction xs ys rule: ed.induct) (auto simp: min.commute min.left_commute)

lemma ed_refl [simp]: "ed xs xs = 0"
  by (induction xs) auto

lemma ed_zero: "ed xs ys = 0 \<Longrightarrow> xs = ys"
  by (induction xs ys rule: ed.induct) (auto split: if_splits simp: min_def)

lemma ed_cases:
  "ed (x # xs) (y # ys) = ed xs (y # ys) + 1 \<or> ed (x # xs) (y # ys) = ed (x # xs) ys + 1
   \<or> ed (x # xs) (y # ys) = ed xs ys + (if x \<noteq> y then 1 else 0)"
  unfolding ed.simps min_def by presburger

lemma ed_length_diff: "length c \<le> length b + ed b c"
  by (induction b c rule: ed.induct) auto

lemma ed_length_sum: "ed a c \<le> length a + length c"
  by (induction a c rule: ed.induct) auto

text \<open>The triangle inequality, by induction on the total length: whichever of the three
  operations ends an optimal alignment of \<open>a\<close> with \<open>b\<close> and of \<open>b\<close> with \<open>c\<close>, an
  alignment of \<open>a\<close> with \<open>c\<close> of no greater cost is available.\<close>

lemma ed_triangle: "ed a c \<le> ed a b + ed b c"
proof (induction "length a + length b + length c" arbitrary: a b c rule: less_induct)
  case less
  show ?case
  proof (cases a)
    case Nil
    then show ?thesis using ed_length_diff[of c b] by simp
  next
    case A: (Cons x a')
    show ?thesis
    proof (cases c)
      case Nil
      then show ?thesis using ed_length_diff[of a b] by (simp add: ed_sym[of a b])
    next
      case C: (Cons z c')
      show ?thesis
      proof (cases b)
        case Nil
        then show ?thesis using ed_length_sum[of a c] by simp
      next
        case B: (Cons y b')
        have h1: "ed a' c \<le> ed a' b + ed b c" using less[of a' b c] A by simp
        have h2: "ed a c' \<le> ed a b + ed b c'" using less[of a b c'] C by simp
        have h4: "ed a c \<le> ed a b' + ed b' c" using less[of a b' c] B by simp
        have h5: "ed a c' \<le> ed a b' + ed b' c'" using less[of a b' c'] B C by simp
        have h6: "ed a' c \<le> ed a' b' + ed b' c" using less[of a' b' c] A B by simp
        have h7: "ed a' c' \<le> ed a' b' + ed b' c'" using less[of a' b' c'] A B C by simp
        have ac1: "ed a c \<le> ed a' c + 1" and ac2: "ed a c \<le> ed a c' + 1"
          and ac3: "ed a c \<le> ed a' c' + (if x \<noteq> z then 1 else 0)"
          using A C by auto
        consider (del) "ed a b = ed a' b + 1" | (ins) "ed a b = ed a b' + 1"
          | (sub) "ed a b = ed a' b' + (if x \<noteq> y then 1 else 0)"
          using ed_cases[of x a' y b'] A B by blast
        then show ?thesis
        proof cases
          case del
          then show ?thesis using h1 ac1 by linarith
        next
          case ins
          consider (del') "ed b c = ed b' c + 1" | (ins') "ed b c = ed b c' + 1"
            | (sub') "ed b c = ed b' c' + (if y \<noteq> z then 1 else 0)"
            using ed_cases[of y b' z c'] B C by blast
          then show ?thesis
          proof cases
            case del' then show ?thesis using ins h4 by linarith
          next
            case ins' then show ?thesis using h2 ac2 by linarith
          next
            case sub' then show ?thesis using ins h5 ac2 by (auto split: if_splits)
          qed
        next
          case sub
          consider (del') "ed b c = ed b' c + 1" | (ins') "ed b c = ed b c' + 1"
            | (sub') "ed b c = ed b' c' + (if y \<noteq> z then 1 else 0)"
            using ed_cases[of y b' z c'] B C by blast
          then show ?thesis
          proof cases
            case del' then show ?thesis using sub h6 ac1 by (auto split: if_splits)
          next
            case ins' then show ?thesis using h2 ac2 by linarith
          next
            case sub' then show ?thesis using sub h7 ac3 by (auto split: if_splits)
          qed
        qed
      qed
    qed
  qed
qed

subsection \<open>The loop of \<^verbatim>\<open>levenshtein\<close> fills the table of the recurrence\<close>

lemma enumerate_snoc: "enumerate n (xs @ [y]) = enumerate n xs @ [(n + length xs, y)]"
  by (simp add: enumerate_append_eq)

lemma edr_snoc:
  "edr (xs @ [x]) (ys @ [y]) =
     min (edr xs (ys @ [y]) + 1) (min (edr (xs @ [x]) ys + 1) (edr xs ys + (if x \<noteq> y then 1 else 0)))"
  by (simp add: edr_def)

lemma inner_loop:
  "k \<le> length b \<Longrightarrow>
   foldl (inner_step x (dp_row xs b)) [Suc (length xs)] (enumerate 1 (take k b)) =
     map (\<lambda>j. edr (xs @ [x]) (take j b)) [0..<Suc k]"
proof (induction k)
  case 0
  show ?case by (simp add: edr_def)
next
  case (Suc k)
  then have k: "k < length b" by simp
  have tk: "take (Suc k) b = take k b @ [b ! k]"
    using k by (simp add: take_Suc_conv_app_nth)
  have p1: "dp_row xs b ! Suc k = edr xs (take k b @ [b ! k])"
    using k unfolding dp_row_def tk[symmetric] by (simp del: upt_Suc add: nth_map_upt)
  have p0: "dp_row xs b ! k = edr xs (take k b)"
    using k unfolding dp_row_def by (simp del: upt_Suc)
  have c0: "map (\<lambda>j. edr (xs @ [x]) (take j b)) [0..<Suc k] ! k = edr (xs @ [x]) (take k b)"
    by (simp del: upt_Suc)
  have IH: "foldl (inner_step x (dp_row xs b)) [Suc (length xs)] (enumerate 1 (take k b)) =
      map (\<lambda>j. edr (xs @ [x]) (take j b)) [0..<Suc k]"
    using Suc.IH k by simp
  have step: "inner_step x (dp_row xs b) (map (\<lambda>j. edr (xs @ [x]) (take j b)) [0..<Suc k]) (Suc k, b ! k) =
      map (\<lambda>j. edr (xs @ [x]) (take j b)) [0..<Suc k] @ [edr (xs @ [x]) (take k b @ [b ! k])]"
    unfolding inner_step_def Let_def prod.case edr_snoc[of xs x "take k b" "b ! k"]
    by (simp only: p1 p0 c0 diff_Suc_1)
  have "foldl (inner_step x (dp_row xs b)) [Suc (length xs)] (enumerate 1 (take (Suc k) b)) =
      inner_step x (dp_row xs b) (map (\<lambda>j. edr (xs @ [x]) (take j b)) [0..<Suc k]) (Suc k, b ! k)"
    using k by (simp only: tk enumerate_snoc foldl_append IH) simp
  also note step
  also have "map (\<lambda>j. edr (xs @ [x]) (take j b)) [0..<Suc k] @ [edr (xs @ [x]) (take k b @ [b ! k])] =
      map (\<lambda>j. edr (xs @ [x]) (take j b)) [0..<Suc (Suc k)]"
    by (simp add: tk)
  finally show ?case .
qed

lemma lev_row_dp: "lev_row b (dp_row xs b) (Suc (length xs), x) = dp_row (xs @ [x]) b"
  using inner_loop[of "length b" b x xs] by (simp add: lev_row_def dp_row_def)

lemma outer_loop:
  "k \<le> length a \<Longrightarrow>
   foldl (lev_row b) (dp_row [] b) (enumerate 1 (take k a)) = dp_row (take k a) b"
proof (induction k)
  case 0
  show ?case by simp
next
  case (Suc k)
  then have k: "k < length a" by simp
  have tk: "take (Suc k) a = take k a @ [a ! k]"
    using k by (simp add: take_Suc_conv_app_nth)
  show ?case
    using Suc.IH k lev_row_dp[of b "take k a" "a ! k"]
    by (simp add: tk enumerate_snoc)
qed

lemma dp_row_Nil: "dp_row [] b = [0..<Suc (length b)]"
proof -
  have "map (\<lambda>j. edr [] (take j b)) [0..<Suc (length b)] = [0..<Suc (length b)]"
    by (rule map_idI) (auto simp: edr_def)
  then show ?thesis by (simp only: dp_row_def)
qed

lemma dp_ed: "last (foldl (lev_row b) [0..<length b + 1] (enumerate 1 a)) = edr a b"
proof -
  have "foldl (lev_row b) [0..<Suc (length b)] (enumerate 1 a) = dp_row a b"
    using outer_loop[of "length a" a b] by (simp add: dp_row_Nil del: upt_Suc)
  moreover have "last (dp_row a b) = edr a b"
    by (simp add: dp_row_def)
  ultimately show ?thesis by simp
qed

lemma edr_sym: "edr a b = edr b a"
  by (simp add: edr_def ed_sym)

lemma levenshtein_edr: "levenshtein a b = edr a b"
  unfolding levenshtein_def Let_def using edr_sym[of a b]
  by (simp only: dp_ed prod.case split: if_splits) simp

text \<open>
  Claim C8. \<^verbatim>\<open>levenshtein\<close> is a metric on strings: it is symmetric, it is zero exactly
  on equal strings, and it satisfies the triangle inequality.
\<close>

theorem levenshtein_metric:
  "levenshtein a b = levenshtein b a \<and>
   (levenshtein a b = 0 \<longleftrightarrow> a = b) \<and>
   levenshtein a c \<le> levenshtein a b + levenshtein b c"
  unfolding levenshtein_edr edr_def
  using ed_sym[of "rev a" "rev b"] ed_zero[of "rev a" "rev b"] ed_triangle[of "rev a" "rev c" "rev b"]
  by auto

subsection \<open>The matching loop of \<^verbatim>\<open>jaro_winkler\<close>\<close>

lemma find_Some_mem: "find P xs = Some x \<Longrightarrow> P x \<and> x \<in> set xs"
  by (induction xs) (auto split: if_splits)


lemma count_update_True:
  "i < length xs \<Longrightarrow> \<not> xs ! i \<Longrightarrow> length (filter id (xs[i := True])) = Suc (length (filter id xs))"
proof (induction xs arbitrary: i)
  case Nil
  then show ?case by simp
next
  case (Cons x xs)
  then show ?case by (cases i) auto
qed

lemma filter_index_count: "length (filter (\<lambda>i. xs ! i) [0..<length xs]) = length (filter id xs)"
proof -
  have "filter id xs = filter id (map (\<lambda>i. xs ! i) [0..<length xs])"
    by (simp add: map_nth)
  also have "length \<dots> = length (filter (\<lambda>i. xs ! i) [0..<length xs])"
    by (simp add: filter_map comp_def)
  finally show ?thesis by simp
qed

lemma window_bound: "j \<in> set (match_window len1 len2 i) \<Longrightarrow> j < len2"
  by (auto simp: match_window_def)

lemma match_step_inv:
  assumes "match_inv (length s1) (length s2) n st" and "n < length s1"
  shows "match_inv (length s1) (length s2) (Suc n) (match_step s1 s2 st n)"
proof -
  obtain s1m s2m m where st: "st = (s1m, s2m, m)" by (cases st) auto
  from assms st have I: "length s1m = length s1" "length s2m = length s2"
    "m = length (filter id s1m)" "m = length (filter id s2m)"
    "\<forall>k. n \<le> k \<and> k < length s1 \<longrightarrow> \<not> s1m ! k"
    by (auto simp: match_inv_def)
  show ?thesis
  proof (cases "find (\<lambda>j. \<not> s2m ! j \<and> s1 ! n = s2 ! j) (match_window (length s1) (length s2) n)")
    case None
    then show ?thesis using I st by (simp add: match_step_def match_inv_def)
  next
    case (Some j)
    from find_Some_mem[OF Some] have j: "\<not> s2m ! j" "j < length s2"
      by (auto dest: window_bound)
    have n: "\<not> s1m ! n" using I(5) assms(2) by simp
    have c1: "length (filter id (s1m[n := True])) = Suc m"
      using count_update_True[of n s1m] n assms(2) I(1,3) by simp
    have c2: "length (filter id (s2m[j := True])) = Suc m"
      using count_update_True[of j s2m] j I(2,4) by simp
    show ?thesis
      using Some st I c1 c2 by (simp add: match_step_def match_inv_def)
  qed
qed

lemma match_loop_inv_aux:
  "n \<le> length s1 \<Longrightarrow>
   match_inv (length s1) (length s2) n
     (foldl (match_step s1 s2) (replicate (length s1) False, replicate (length s2) False, 0) [0..<n])"
proof (induction n)
  case 0
  show ?case by (simp add: match_inv_def)
next
  case (Suc n)
  then show ?case using match_step_inv[of s1 s2 n] by simp
qed

lemma match_loop_inv: "match_inv (length s1) (length s2) (length s1) (match_loop s1 s2)"
  unfolding match_loop_def by (rule match_loop_inv_aux) simp

lemma match_loop_bounds:
  assumes "match_loop s1 s2 = (s1m, s2m, m)"
  shows "m \<le> length s1" and "m \<le> length s2"
    and "0 \<le> transpositions s1 s2 s1m s2m" and "transpositions s1 s2 s1m s2m \<le> of_nat m / 2"
proof -
  from match_loop_inv[of s1 s2] assms have I: "length s1m = length s1" "length s2m = length s2"
    "m = length (filter id s1m)" "m = length (filter id s2m)"
    by (auto simp: match_inv_def)
  show "m \<le> length s1" using I(1,3) length_filter_le[of id s1m] by simp
  show "m \<le> length s2" using I(2,4) length_filter_le[of id s2m] by simp
  show "0 \<le> transpositions s1 s2 s1m s2m" by (simp add: transpositions_def Let_def)
  have "length (filter (\<lambda>i. s1m ! i) [0..<length s1]) = m"
    using filter_index_count[of s1m] I(1,3) by simp
  then have "length (filter (\<lambda>(a, b). a \<noteq> b)
       (zip (map (\<lambda>i. s1 ! i) (filter (\<lambda>i. s1m ! i) [0..<length s1]))
            (map (\<lambda>j. s2 ! j) (filter (\<lambda>j. s2m ! j) [0..<length s2])))) \<le> m"
    by (rule_tac order_trans[OF length_filter_le]) simp
  then show "transpositions s1 s2 s1m s2m \<le> of_nat m / 2"
    by (simp add: transpositions_def Let_def divide_right_mono)
qed

lemma jaro_score_bounds:
  assumes "snd (snd (match_loop s1 s2)) \<noteq> 0"
  shows "0 \<le> jaro_score s1 s2 \<and> jaro_score s1 s2 \<le> 1"
proof -
  obtain s1m s2m m where ml: "match_loop s1 s2 = (s1m, s2m, m)" by (cases "match_loop s1 s2") auto
  with assms have m: "0 < m" by simp
  note b = match_loop_bounds[OF ml]
  let ?t = "transpositions s1 s2 s1m s2m"
  let ?m = "of_nat m :: rat"
  have l1: "0 < length s1" and l2: "0 < length s2" using b(1,2) m by auto
  have t1: "0 \<le> ?m / of_nat (length s1)" "?m / of_nat (length s1) \<le> 1"
    using b(1) l1 by (auto simp: divide_le_eq_1)
  have t2: "0 \<le> ?m / of_nat (length s2)" "?m / of_nat (length s2) \<le> 1"
    using b(2) l2 by (auto simp: divide_le_eq_1)
  have "?m / 2 \<le> ?m" by simp
  with b(4) have "?t \<le> ?m" by (rule order_trans)
  then have t3: "0 \<le> (?m - ?t) / ?m" "(?m - ?t) / ?m \<le> 1"
    using b(3) m by (auto simp: divide_le_eq_1)
  have "jaro_score s1 s2 = (?m / of_nat (length s1) + ?m / of_nat (length s2) + (?m - ?t) / ?m) / 3"
    by (simp add: jaro_score_def ml Let_def)
  moreover have "0 \<le> ?m / of_nat (length s1) + ?m / of_nat (length s2) + (?m - ?t) / ?m"
    using t1(1) t2(1) t3(1) by linarith
  moreover have "?m / of_nat (length s1) + ?m / of_nat (length s2) + (?m - ?t) / ?m \<le> 3"
    using t1(2) t2(2) t3(2) by linarith
  ultimately show ?thesis by simp
qed

lemma winkler_bounds:
  assumes "0 \<le> j" "j \<le> 1" "k \<le> 4"
  shows "j \<le> winkler j k (1 / 10) \<and> winkler j k (1 / 10) \<le> 1"
proof -
  have k: "0 \<le> (of_nat k :: rat)" "(of_nat k :: rat) \<le> 4" using assms(3) by auto
  have "0 \<le> of_nat k * (1 / 10) * (1 - j)" using k assms by simp
  moreover have "of_nat k * (1 / 10) * (1 - j) \<le> 4 * (1 / 10) * (1 - j)"
    using k assms by (intro mult_right_mono) auto
  ultimately show ?thesis using assms by (simp add: winkler_def)
qed

lemma jaro_winkler_range: "0 \<le> jaro_winkler s1 s2 \<and> jaro_winkler s1 s2 \<le> 1"
  using jaro_score_bounds[of s1 s2] winkler_bounds[of "jaro_score s1 s2" "min (common_prefix s1 s2) 4"]
  by (auto simp: jaro_winkler_def jaro_winkler_p_def)






lemma jaro_score_pos:
  assumes "snd (snd (match_loop s1 s2)) \<noteq> 0"
  shows "0 < jaro_score s1 s2"
proof -
  obtain s1m s2m m where ml: "match_loop s1 s2 = (s1m, s2m, m)" by (cases "match_loop s1 s2") auto
  with assms have m: "0 < m" by simp
  note b = match_loop_bounds[OF ml]
  let ?t = "transpositions s1 s2 s1m s2m"
  let ?m = "of_nat m :: rat"
  have l1: "0 < length s1" and l2: "0 < length s2" using b(1,2) m by auto
  have t1: "0 < ?m / of_nat (length s1)" using m l1 by simp
  have t2: "0 \<le> ?m / of_nat (length s2)" by simp
  have "?m / 2 \<le> ?m" by simp
  with b(4) have "?t \<le> ?m" by (rule order_trans)
  then have t3: "0 \<le> (?m - ?t) / ?m" by simp
  have "jaro_score s1 s2 = (?m / of_nat (length s1) + ?m / of_nat (length s2) + (?m - ?t) / ?m) / 3"
    by (simp add: jaro_score_def ml Let_def)
  moreover have "0 < ?m / of_nat (length s1) + ?m / of_nat (length s2) + (?m - ?t) / ?m"
    using t1 t2 t3 by linarith
  ultimately show ?thesis by simp
qed

lemma winkler_mono:
  assumes "j \<le> j'" "j' \<le> 1" "k \<le> k'" "k' \<le> 4"
  shows "winkler j k (1 / 10) \<le> winkler j' k' (1 / 10)"
proof -
  define a :: rat where "a = of_nat k * (1 / 10)"
  define a' :: rat where "a' = of_nat k' * (1 / 10)"
  have a: "0 \<le> a" "a \<le> a'" "a' \<le> 1"
    using assms(3,4) by (auto simp: a_def a'_def)
  have "0 \<le> (j' - j) * (1 - a)"
    using assms(1) a by (intro mult_nonneg_nonneg) auto
  then have 1: "j + a * (1 - j) \<le> j' + a * (1 - j')"
    by (simp add: algebra_simps)
  have "0 \<le> (a' - a) * (1 - j')"
    using assms(2) a by (intro mult_nonneg_nonneg) auto
  then have 2: "j' + a * (1 - j') \<le> j' + a' * (1 - j')"
    by (simp add: algebra_simps)
  from 1 2 show ?thesis
    unfolding winkler_def a_def a'_def by (rule order_trans)
qed

lemma common_prefix_Cons: "common_prefix (c # s1) (c # s2) = Suc (common_prefix s1 s2)"
  by (simp add: common_prefix_def)

lemma jaro_p0: "jaro_winkler_p s1 s2 0 =
   (if s1 = s2 then 1 else if snd (snd (match_loop s1 s2)) = 0 then 0 else jaro_score s1 s2)"
  by (simp add: jaro_winkler_p_def winkler_def)

lemma prepend_mono_if_jaro:
  assumes "jaro_winkler_p s1 s2 0 \<le> jaro_winkler_p (c # s1) (c # s2) 0"
  shows "jaro_winkler s1 s2 \<le> jaro_winkler (c # s1) (c # s2)"
proof (cases "s1 = s2")
  case True
  then show ?thesis by (simp add: jaro_winkler_def jaro_winkler_p_def)
next
  case ne: False
  show ?thesis
  proof (cases "snd (snd (match_loop s1 s2)) = 0")
    case True
    then have "jaro_winkler s1 s2 = 0" using ne by (simp add: jaro_winkler_def jaro_winkler_p_def)
    then show ?thesis using jaro_winkler_range[of "c # s1" "c # s2"] by simp
  next
    case m: False
    have "0 < jaro_winkler_p (c # s1) (c # s2) 0"
      using assms jaro_score_pos[OF m] ne m by (simp add: jaro_p0)
    then have m': "snd (snd (match_loop (c # s1) (c # s2))) \<noteq> 0"
      using ne by (auto simp: jaro_p0 split: if_splits)
    have j: "jaro_score s1 s2 \<le> jaro_score (c # s1) (c # s2)"
      using assms ne m m' by (simp add: jaro_p0)
    have "winkler (jaro_score s1 s2) (min (common_prefix s1 s2) 4) (1 / 10)
            \<le> winkler (jaro_score (c # s1) (c # s2)) (min (common_prefix (c # s1) (c # s2)) 4) (1 / 10)"
      using j jaro_score_bounds[OF m']
      by (intro winkler_mono) (auto simp: common_prefix_Cons)
    then show ?thesis using ne m m' by (simp add: jaro_winkler_def jaro_winkler_p_def)
  qed
qed




text \<open>
  Claim C9, as amended. \<^verbatim>\<open>jaro_winkler(s, s)\<close> is exactly 1. Adding the same character in
  front of both strings does not lower the similarity provided it does not lower the Jaro
  score (the value for \<^verbatim>\<open>p = 0\<close>); and for one Jaro score at most 1 the result does not
  decrease as the shared leading run grows, and no longer changes past 4 characters.
\<close>

theorem jaro_winkler_self_and_prefix:
  "jaro_winkler s s = 1 \<and>
   (jaro_winkler_p s1 s2 0 \<le> jaro_winkler_p (c # s1) (c # s2) 0 \<longrightarrow>
      jaro_winkler s1 s2 \<le> jaro_winkler (c # s1) (c # s2)) \<and>
   (j \<le> 1 \<and> k \<le> k' \<longrightarrow>
      winkler j (min k 4) (1 / 10) \<le> winkler j (min k' 4) (1 / 10)) \<and>
   (4 \<le> k \<longrightarrow> winkler j (min k 4) (1 / 10) = winkler j 4 (1 / 10))"
proof -
  have "jaro_winkler s s = 1"
    by (simp add: jaro_winkler_def jaro_winkler_p_def)
  moreover have "j \<le> 1 \<and> k \<le> k' \<longrightarrow>
      winkler j (min k 4) (1 / 10) \<le> winkler j (min k' 4) (1 / 10)"
    using winkler_mono[of j j "min k 4" "min k' 4"] by auto
  moreover have "4 \<le> k \<longrightarrow> winkler j (min k 4) (1 / 10) = winkler j 4 (1 / 10)"
    by (simp add: min_def)
  ultimately show ?thesis
    using prepend_mono_if_jaro[of s1 s2 c] by blast
qed

theorem jaro_winkler_self_and_prefix_witness:
  "jaro_winkler ''ohn'' ''ahn'' \<le> jaro_winkler ''john'' ''jahn'' \<and>
   winkler (1 / 2) (min 1 4) (1 / 10) \<le> winkler (1 / 2) (min 3 4) (1 / 10) \<and>
   winkler (1 / 2) (min 6 4) (1 / 10) = winkler (1 / 2) 4 (1 / 10)"
proof -
  have h1: "jaro_winkler_p ''ohn'' ''ahn'' 0 \<le> jaro_winkler_p (CHR ''j'' # ''ohn'') (CHR ''j'' # ''ahn'') 0"
    by code_simp
  have h2: "(1 / 2 :: rat) \<le> 1 \<and> (1 :: nat) \<le> 3" by simp
  have h3: "(4 :: nat) \<le> 6" by simp
  have a: "jaro_winkler ''ohn'' ''ahn'' \<le> jaro_winkler (CHR ''j'' # ''ohn'') (CHR ''j'' # ''ahn'')"
    using h1 jaro_winkler_self_and_prefix[of "''ohn''" "''ohn''" "''ahn''" "CHR ''j''" "1 / 2" 1 3]
    by blast
  have b: "winkler (1 / 2) (min 1 4) (1 / 10) \<le> winkler (1 / 2) (min 3 4) (1 / 10)"
    using h2 jaro_winkler_self_and_prefix[of "''ohn''" "''ohn''" "''ahn''" "CHR ''j''" "1 / 2" 1 3]
    by blast
  have c: "winkler (1 / 2) (min 6 4) (1 / 10) = winkler (1 / 2) 4 (1 / 10)"
    using h3 jaro_winkler_self_and_prefix[of "''ohn''" "''ohn''" "''ahn''" "CHR ''j''" "1 / 2" 6 6]
    by blast
  show ?thesis using a b c by blast
qed

text \<open>
  Claim C9 as stated fails: with \<open>x\<close> added in front, \<open>aba\<close> and \<open>bbabb\<close> share one
  leading character, the match distance grows from 1 to 2, the greedy matching pairs the
  first \<open>a\<close> with a later \<open>a\<close> and creates a transposition, and the similarity falls
  from 31/45 to 27/40.
\<close>

theorem jaro_winkler_prefix_counterexample:
  "jaro_winkler ''aba'' ''bbabb'' = 31 / 45 \<and> jaro_winkler ''xaba'' ''xbbabb'' = 27 / 40 \<and>
   common_prefix ''xaba'' ''xbbabb'' = 1 \<and>
   jaro_winkler ''xaba'' ''xbbabb'' < jaro_winkler ''aba'' ''bbabb''"
  by code_simp

subsection \<open>\<^verbatim>\<open>date_exploded\<close>\<close>

lemma date_exploded_try_Inr:
  "date_exploded_try parse ref var = Inr b \<longleftrightarrow>
     (\<exists>d1 d2. parse ref = Inr d1 \<and> parse var = Inr d2 \<and> b = (date_of d1 \<noteq> date_of d2))"
  by (auto simp: date_exploded_try_def split: sum.splits)

lemma date_exploded_False_iff:
  "date_exploded parse ref var = False \<longleftrightarrow>
     (\<exists>d1 d2. parse ref = Inr d1 \<and> parse var = Inr d2 \<and> date_of d1 = date_of d2)"
  by (auto simp: date_exploded_def date_exploded_try_def split: sum.splits)

lemma date_exploded_failure:
  "isl (parse ref) \<or> isl (parse var) \<Longrightarrow> date_exploded parse ref var"
  by (auto simp: date_exploded_def date_exploded_try_def split: sum.splits)

text \<open>
  Claim C6. \<^verbatim>\<open>date_exploded(ref, var)\<close> always returns a truth value. It returns false
  exactly when both strings are parsed and give the same calendar date, whatever their
  spelling; it returns true when the two dates differ, and true when the parser raises on
  either string. The parser is the one of \<^verbatim>\<open>dateutil\<close>, called with
  \<^verbatim>\<open>dayfirst=True\<close>; it is a parameter here.
\<close>

theorem date_exploded_spec:
  "(date_exploded parse ref var = False \<longleftrightarrow>
      (\<exists>d1 d2. parse ref = Inr d1 \<and> parse var = Inr d2 \<and> date_of d1 = date_of d2)) \<and>
   (parse ref = Inr d1 \<and> parse var = Inr d2 \<and> date_of d1 \<noteq> date_of d2 \<longrightarrow>
      date_exploded parse ref var) \<and>
   (isl (parse ref) \<or> isl (parse var) \<longrightarrow> date_exploded parse ref var)"
  using date_exploded_False_iff[of parse ref var] date_exploded_failure[of parse ref var]
  by auto

theorem date_exploded_spec_witness:
  "date_exploded scenario_parse ''1985-06-15'' ''1985/06/15'' = False \<and>
   date_exploded scenario_parse ''1985-06-15'' ''1985-06-16'' \<and>
   date_exploded scenario_parse ''1985-06-15'' ''june'' \<and>
   date_exploded scenario_parse ''june'' ''1985-06-15''"
proof -
  have p1: "scenario_parse ''1985-06-15'' = Inr (midnight 1985 6 15)"
    and p2: "scenario_parse ''1985/06/15'' = Inr (midnight 1985 6 15)"
    and p3: "scenario_parse ''1985-06-16'' = Inr (midnight 1985 6 16)"
    and p4: "scenario_parse ''june'' = Inl ParserError"
    by (simp_all add: scenario_parse_def)
  have same: "date_of (midnight 1985 6 15) = date_of (midnight 1985 6 15)" by simp
  have diff: "date_of (midnight 1985 6 15) \<noteq> date_of (midnight 1985 6 16)"
    by (simp add: date_of_def midnight_def)
  have a: "date_exploded scenario_parse ''1985-06-15'' ''1985/06/15'' = False"
    using date_exploded_spec[of scenario_parse "''1985-06-15''" "''1985/06/15''"] p1 p2 same
    by blast
  have b: "date_exploded scenario_parse ''1985-06-15'' ''1985-06-16''"
    using date_exploded_spec[of scenario_parse "''1985-06-15''" "''1985-06-16''"
        "midnight 1985 6 15" "midnight 1985 6 16"] p1 p3 diff
    by blast
  have c: "date_exploded scenario_parse ''1985-06-15'' ''june''"
    using date_exploded_spec[of scenario_parse "''1985-06-15''" "''june''"] p4 by simp
  have d: "date_exploded scenario_parse ''june'' ''1985-06-15''"
    using date_exploded_spec[of scenario_parse "''june''" "''1985-06-15''"] p4 by simp
  show ?thesis using a b c d by blast
qed

subsection \<open>The explosion classifier\<close>

lemma set_unique [simp]: "set (unique xs) = set xs"
  by (simp add: unique_def)

lemma distinct_unique [simp]: "distinct (unique xs)"
  by (simp add: unique_def)

lemma unique_Nil_iff [simp]: "unique xs = [] \<longleftrightarrow> xs = []"
  by (simp add: unique_def)

lemma set_group_keys [simp]: "set (group_keys df) = row_id ` set df"
  by (simp add: group_keys_def)

lemma distinct_group_keys [simp]: "distinct (group_keys df)"
  by (simp add: group_keys_def)

lemma group_rows_nonempty: "rid \<in> set (group_keys df) \<Longrightarrow> group_rows df rid \<noteq> []"
  by (auto simp: group_rows_def filter_empty_conv)

lemma map_of_tabulate:
  "map_of (map (\<lambda>k. (k, f k)) ks) k = (if k \<in> set ks then Some (f k) else None)"
  by (induction ks) auto

lemma reference_by_id_eq:
  "reference_by_id df fld rid =
     (if rid \<in> set (group_keys df) then Some (last (column (group_rows df rid) fld)) else None)"
  unfolding reference_by_id_def reference_items_def by (rule map_of_tabulate)

lemma last_column: "grp \<noteq> [] \<Longrightarrow> last (column grp fld) = row_vals (last grp) fld"
  by (simp add: column_def last_map)

lemma variant_loop:
  "foldl (variant_step parse fld ref_val) (out, b) vs =
     (out @ map (Pair fld) (filter (explode_decision parse fld ref_val) vs),
      b \<or> filter (explode_decision parse fld ref_val) vs \<noteq> [])"
  by (induction vs arbitrary: out b) (auto simp: variant_step_def)

lemma field_explosions_eq:
  "field_explosions parse fld ref_val grp =
     (let ex = filter (explode_decision parse fld ref_val) (variants_of ref_val grp fld)
      in map (Pair fld) ex @ (if fld \<in> set key_fields \<and> ex = [] then [(fld, ref_val)] else []))"
  by (simp add: field_explosions_def variant_loop Let_def)

lemma fields_loop_eq:
  "rid \<in> set (group_keys df) \<Longrightarrow>
   fields_loop parse df rid flds out =
     Inr (out @ concat (map (\<lambda>fld. field_explosions parse fld
            (last (column (group_rows df rid) fld)) (group_rows df rid)) flds))"
  by (induction flds arbitrary: out) (simp_all add: reference_by_id_eq)

lemma field_explosions_fst: "p \<in> set (field_explosions parse fld ref_val grp) \<Longrightarrow> fst p = fld"
  by (auto simp: field_explosions_eq Let_def split: if_splits)

lemma filter_field_concat:
  "distinct flds \<Longrightarrow> fld \<in> set flds \<Longrightarrow>
   filter (\<lambda>p. fst p = fld) (concat (map (\<lambda>f. field_explosions parse f (r f) grp) flds)) =
     field_explosions parse fld (r fld) grp"
proof (induction flds)
  case Nil
  then show ?case by simp
next
  case (Cons f flds)
  have same: "filter (\<lambda>p. fst p = f) (field_explosions parse f (r f) grp) = field_explosions parse f (r f) grp"
    by (rule filter_True) (auto dest: field_explosions_fst)
  have other: "g \<noteq> fld \<Longrightarrow> filter (\<lambda>p. fst p = fld) (field_explosions parse g (r g) grp) = []" for g
    by (auto simp: filter_empty_conv dest: field_explosions_fst)
  have rest: "fld \<notin> set gs \<Longrightarrow>
      filter (\<lambda>p. fst p = fld) (concat (map (\<lambda>f. field_explosions parse f (r f) grp) gs)) = []" for gs
    by (induction gs) (auto simp: other)
  show ?case
  proof (cases "f = fld")
    case True
    then show ?thesis using Cons.prems same rest[of flds] by simp
  next
    case False
    then show ?thesis using Cons other[of f] by simp
  qed
qed

lemma mem_field_concat:
  "(fld, v) \<in> set (concat (map (\<lambda>f. field_explosions parse f (r f) grp) flds)) \<longleftrightarrow>
     fld \<in> set flds \<and> (fld, v) \<in> set (field_explosions parse fld (r fld) grp)"
proof -
  have "(fld, v) \<in> set (field_explosions parse f (r f) grp) \<Longrightarrow> f = fld" for f
    using field_explosions_fst[of "(fld, v)" parse f "r f" grp] by simp
  then show ?thesis by auto
qed




lemma script_output:
  assumes "rid \<in> set (group_keys df)" "fld \<in> set all_fields"
    and "reference_by_id df fld rid = Some ref_val"
  shows "\<exists>out. fields_loop parse df rid all_fields [] = Inr out \<and>
           (\<forall>v. (fld, v) \<in> set out \<longleftrightarrow> (fld, v) \<in> set (field_explosions parse fld ref_val (group_rows df rid))) \<and>
           (distinct all_fields \<longrightarrow>
              filter (\<lambda>p. fst p = fld) out = field_explosions parse fld ref_val (group_rows df rid))"
proof -
  have r: "last (column (group_rows df rid) fld) = ref_val"
    using assms(1,3) by (simp add: reference_by_id_eq)
  let ?out = "concat (map (\<lambda>f. field_explosions parse f
            (last (column (group_rows df rid) f)) (group_rows df rid)) all_fields)"
  have "fields_loop parse df rid all_fields [] = Inr ?out"
    using fields_loop_eq[OF assms(1), of parse all_fields "[]"] by simp
  moreover have "(fld, v) \<in> set ?out \<longleftrightarrow> (fld, v) \<in> set (field_explosions parse fld ref_val (group_rows df rid))" for v
    using mem_field_concat[of fld v parse "\<lambda>f. last (column (group_rows df rid) f)" "group_rows df rid" all_fields]
      assms(2) r by simp
  moreover have "distinct all_fields \<Longrightarrow>
      filter (\<lambda>p. fst p = fld) ?out = field_explosions parse fld ref_val (group_rows df rid)"
    using filter_field_concat[of all_fields fld parse "\<lambda>f. last (column (group_rows df rid) f)" "group_rows df rid"]
      assms(2) r by simp
  ultimately show ?thesis by blast
qed








text \<open>The fallback of \<^verbatim>\<open>find_explosions\<close> raises as soon as one key field is among the
  fields; the fallback of the script leaves a key field with a list that is not empty.\<close>

lemma fallback_loop_raises:
  "filter (\<lambda>r. row_id r = rid) ref_df \<noteq> [] \<Longrightarrow> list_ex (\<lambda>f. f \<in> set key_fields) flds \<Longrightarrow>
   fallback_loop ref_df rid exploded_rows flds pairs = Inl ValueError"
proof (induction flds arbitrary: pairs)
  case Nil
  then show ?case by simp
next
  case (Cons f flds)
  then show ?case
    by (cases "filter (\<lambda>r. row_id r = rid) ref_df") (auto simp: series_truth_def Let_def)
qed

lemma script_fallback:
  assumes "rid \<in> set (group_keys df)" and "fld \<in> set all_fields" and "distinct all_fields"
    and "reference_by_id df fld rid = Some ref_val" and "fld \<in> set key_fields"
  shows "\<exists>out. fields_loop parse df rid all_fields [] = Inr out \<and>
           filter (\<lambda>p. fst p = fld) out \<noteq> [] \<and>
           filter (\<lambda>p. fst p = fld) out =
             (let ex = filter (explode_decision parse fld ref_val) (variants_of ref_val (group_rows df rid) fld)
              in if ex = [] then [(fld, ref_val)] else map (Pair fld) ex)"
proof -
  from script_output[OF assms(1,2,4), of parse] assms(3) obtain out where
    out: "fields_loop parse df rid all_fields [] = Inr out"
    and f: "filter (\<lambda>p. fst p = fld) out = field_explosions parse fld ref_val (group_rows df rid)"
    by blast
  show ?thesis
    using out f assms(5) by (auto simp: field_explosions_eq Let_def)
qed

text \<open>
  Claim C1. For every identifier and every key field, the list of the field after the
  fallback is not empty: with no explosion, one entry with the reference is inserted, and
  none otherwise. The script does this (\<open>script_fallback\<close>). \<^verbatim>\<open>find_explosions\<close>
  does not: on the second scenario of the specification the test
  \<^verbatim>\<open>not exploded[exploded['field'] == fld].any()\<close> raises \<^verbatim>\<open>ValueError\<close>, where the
  script returns the list with the reference.
\<close>

theorem find_explosions_fallback_raises:
  "find_explosions similarity distance parse
     (compute_frequencies postcodes_df [''postcode'']) (get_references postcodes_df) [''postcode'']
     = Inl ValueError \<and>
   explosions_by_id parse postcodes_df [''postcode''] = Inr [(2, [(''postcode'', ''sw1a1aa'')])]"
  by code_simp

subsection \<open>The reference selector\<close>

lemma sorted_map_last: "sorted (map f ys) \<Longrightarrow> y \<in> set ys \<Longrightarrow> f y \<le> f (last ys)"
  by (induction ys) (auto split: if_splits)

lemma sorted_filter_last:
  assumes "sorted (map f xs)" and "x \<in> set (filter P xs)"
  shows "f x \<le> f (last (filter P xs))"
  using sorted_map_last[OF sorted_filter[OF assms(1), of P] assms(2)] .

lemma filter_map_key:
  "(\<And>k. k \<in> set ks \<Longrightarrow> g (f k) = k) \<Longrightarrow>
   filter (\<lambda>x. g x = rid) (map f ks) = map f (filter (\<lambda>k. k = rid) ks)"
  by (induction ks) auto

lemma filter_eq_distinct: "distinct ks \<Longrightarrow> k \<in> set ks \<Longrightarrow> filter (\<lambda>x. x = k) ks = [k]"
  by (induction ks) (auto simp: filter_empty_conv)

lemma last_group_rows:
  assumes "rid \<in> row_id ` set df"
  shows "last (group_rows df rid) \<in> set df \<and> row_id (last (group_rows df rid)) = rid"
proof -
  have ne: "group_rows df rid \<noteq> []"
    using assms by (auto simp: group_rows_def filter_empty_conv)
  from last_in_set[OF ne] show ?thesis by (auto simp: group_rows_def)
qed

lemma get_references_row:
  assumes "rid \<in> row_id ` set sdf"
  shows "filter (\<lambda>x. row_id x = rid) (get_references sdf) = [last (group_rows sdf rid)]"
proof -
  have "filter (\<lambda>x. row_id x = rid) (map (\<lambda>k. last (group_rows sdf k)) (group_keys sdf)) =
      map (\<lambda>k. last (group_rows sdf k)) (filter (\<lambda>k. k = rid) (group_keys sdf))"
    by (rule filter_map_key) (simp add: last_group_rows)
  also have "filter (\<lambda>k. k = rid) (group_keys sdf) = [rid]"
    using assms by (intro filter_eq_distinct) simp_all
  finally show ?thesis by (simp add: get_references_def)
qed

lemma distinct_reference_items: "distinct (map fst (reference_items df fld))"
  by (simp add: reference_items_def comp_def)

text \<open>
  Claim C4. For every identifier of the frame and every field there is exactly one
  reference, the value of the field in the last record of the group. In the script the
  last record is the last row of the group in row order. In \<^verbatim>\<open>get_references\<close> it is
  the last row of the group in the frame sorted by ascending timestamp, whatever order
  the sort gives to equal timestamps: a record of the group whose timestamp no record of
  the group exceeds. Each entry point has one of the two orders.
\<close>

theorem reference_is_last_record:
  assumes "rid \<in> row_id ` set df"
  shows "(\<exists>r. r = last (group_rows df rid) \<and> r \<in> set df \<and> row_id r = rid \<and>
            reference_by_id df fld rid = Some (row_vals r fld)) \<and>
         distinct (map fst (reference_items df fld)) \<and>
         (sort_values_ts df sdf \<longrightarrow>
            (\<exists>r. filter (\<lambda>x. row_id x = rid) (get_references sdf) = [r] \<and>
                 r = last (group_rows sdf rid) \<and> r \<in> set df \<and> row_id r = rid \<and>
                 (\<forall>x \<in> set (group_rows df rid). row_ts x \<le> row_ts r)))"
proof -
  have ne: "group_rows df rid \<noteq> []"
    using assms by (auto simp: group_rows_def filter_empty_conv)
  have script: "reference_by_id df fld rid = Some (row_vals (last (group_rows df rid)) fld)"
    using assms ne by (simp add: reference_by_id_eq last_column)
  have ts: "\<exists>r. filter (\<lambda>x. row_id x = rid) (get_references sdf) = [r] \<and>
                 r = last (group_rows sdf rid) \<and> r \<in> set df \<and> row_id r = rid \<and>
                 (\<forall>x \<in> set (group_rows df rid). row_ts x \<le> row_ts r)"
    if s: "sort_values_ts df sdf"
  proof -
    from s have m: "mset sdf = mset df" and so: "sorted (map row_ts sdf)"
      by (simp_all add: sort_values_ts_def)
    from m have se: "set sdf = set df" by (rule mset_eq_setD)
    then have rid: "rid \<in> row_id ` set sdf" using assms by simp
    have "row_ts x \<le> row_ts (last (group_rows sdf rid))" if "x \<in> set (group_rows df rid)" for x
    proof -
      from that se have "x \<in> set (filter (\<lambda>r. row_id r = rid) sdf)"
        by (simp add: group_rows_def)
      from sorted_filter_last[OF so this] show ?thesis by (simp add: group_rows_def)
    qed
    then show ?thesis
      using get_references_row[OF rid] last_group_rows[OF rid] se by simp
  qed
  show ?thesis
    using script last_group_rows[OF assms] distinct_reference_items[of df fld] ts by blast
qed

theorem reference_is_last_record_witness:
  "reference_by_id late_first_df ''first_name'' 1 = Some ''john'' \<and>
   (\<exists>r. filter (\<lambda>x. row_id x = 1) (get_references late_first_sorted) = [r] \<and>
        r = last (group_rows late_first_sorted 1) \<and> row_ts r = 5 \<and> row_vals r ''first_name'' = ''jahn'')"
proof -
  have h1: "1 \<in> row_id ` set late_first_df"
    by (simp add: late_first_df_def mk_row_def)
  have h2: "sort_values_ts late_first_df late_first_sorted"
    by (simp add: sort_values_ts_def late_first_df_def late_first_sorted_def mk_row_def)
  have l1: "row_vals (last (group_rows late_first_df 1)) ''first_name'' = ''john''"
    by (simp add: late_first_df_def group_rows_def mk_row_def)
  have l2: "row_ts (last (group_rows late_first_sorted 1)) = 5"
    "row_vals (last (group_rows late_first_sorted 1)) ''first_name'' = ''jahn''"
    by (simp_all add: late_first_sorted_def group_rows_def mk_row_def)
  show ?thesis
    using reference_is_last_record[OF h1, of "''first_name''" late_first_sorted] h2 l1 l2
    by auto
qed

subsection \<open>The metadata builders\<close>

lemma build_metadata_keys:
  "distinct (map fst (build_metadata similarity distance parse freq_df ref_df fld))"
  by (simp add: build_metadata_def Let_def comp_def)

text \<open>
  Claim C7. The metadata of a field is keyed by reference value; the variants under a
  reference are all the values, other than the reference, observed for any identifier that
  has this reference, each with its number of occurrences; identifiers that share a
  reference are aggregated under it. On a frame where identifiers 1 and 2 share the
  reference \<open>m\<close>, identifier 1 with \<open>male\<close> twice and identifier 2 with \<open>f\<close> once, the
  claim asks for \<open>male\<close> with frequency 2 and \<open>f\<close> with frequency 1. The script keeps
  the variants of identifier 2 only: its assignment \<^verbatim>\<open>metadata[fld][ref_val] = ...\<close>
  replaces what identifier 1 stored. \<^verbatim>\<open>build_metadata\<close> aggregates the two identifiers
  but gives \<open>male\<close> the frequency 1: its \<^verbatim>\<open>Counter\<close> counts the rows of \<^verbatim>\<open>freq_df\<close>,
  one per identifier and value, and not the column \<^verbatim>\<open>frequency\<close>.
\<close>

theorem metadata_frequency_and_aggregation:
  "metadata parse shared_reference_df ''sex'' ''m'' = Some [(''f'', frequency_only 1)] \<and>
   build_metadata similarity distance parse
     (compute_frequencies shared_reference_df [''sex'']) (get_references shared_reference_df) ''sex''
     = [(''m'', [(''male'', frequency_only 1), (''f'', frequency_only 1)])]"
  by code_simp

subsection \<open>The combination generator\<close>

lemma mapM_Inr: "(\<And>x. x \<in> set xs \<Longrightarrow> f x = Inr (g x)) \<Longrightarrow> mapM f xs = Inr (map g xs)"
  by (induction xs) auto

lemma explosions_by_id_eq:
  "explosions_by_id parse df all_fields =
     Inr (filter (\<lambda>(rid, out). out \<noteq> [])
            (map (\<lambda>rid. (rid, out_of parse df all_fields rid)) (group_keys df)))"
proof -
  have "mapM (\<lambda>rid. case fields_loop parse df rid all_fields [] of
                          Inl e \<Rightarrow> Inl e | Inr out \<Rightarrow> Inr (rid, out)) (group_keys df) =
      Inr (map (\<lambda>rid. (rid, out_of parse df all_fields rid)) (group_keys df))"
    by (rule mapM_Inr) (simp add: fields_loop_eq out_of_def)
  then show ?thesis by (simp add: explosions_by_id_def)
qed

lemma field_explosions_key_nonempty:
  "fld \<in> set key_fields \<Longrightarrow> field_explosions parse fld ref_val grp \<noteq> []"
  by (simp add: field_explosions_eq Let_def)

lemma out_of_nonempty:
  assumes "list_ex (\<lambda>f. f \<in> set key_fields) all_fields"
  shows "out_of parse df all_fields rid \<noteq> []"
proof -
  from assms obtain f where f: "f \<in> set all_fields" "f \<in> set key_fields"
    by (auto simp: list_ex_iff)
  then show ?thesis
    using field_explosions_key_nonempty[of f parse "last (column (group_rows df rid) f)" "group_rows df rid"]
    by (auto simp: out_of_def)
qed

lemma variant_list_eq:
  "rid \<in> set (group_keys df) \<Longrightarrow>
   variant_list df rid pairs fld =
     Inr (if grouped_cell pairs fld \<noteq> [] then grouped_cell pairs fld
          else [last (column (group_rows df rid) fld)])"
  by (simp add: variant_list_def Let_def reference_by_id_eq)

lemma combination_rows_eq:
  "rid \<in> set (group_keys df) \<Longrightarrow>
   combination_rows df all_fields (rid, pairs) =
     Inr (map (\<lambda>combo. (rid, py_dict (zip all_fields combo)))
              (product_lists (vls_of df all_fields rid pairs)))"
proof -
  assume r: "rid \<in> set (group_keys df)"
  have "mapM (variant_list df rid pairs) all_fields = Inr (vls_of df all_fields rid pairs)"
    unfolding vls_of_def by (rule mapM_Inr) (simp add: variant_list_eq[OF r])
  then show ?thesis by (simp add: combination_rows_def)
qed

lemma df_wide_eq:
  assumes "explosions_by_id parse df all_fields = Inr items" and "items \<noteq> []"
  shows "df_wide parse df all_fields =
     Inr (map (wide_row all_fields) (concat (map (rows_of df all_fields) items)))"
proof -
  have k: "fst item \<in> set (group_keys df)" if "item \<in> set items" for item
    using assms(1) that unfolding explosions_by_id_eq by auto
  have "mapM (combination_rows df all_fields) items = Inr (map (rows_of df all_fields) items)"
  proof (rule mapM_Inr)
    fix item assume "item \<in> set items"
    from k[OF this] show "combination_rows df all_fields item = Inr (rows_of df all_fields item)"
      using combination_rows_eq[of "fst item" df all_fields "snd item"] by (simp add: rows_of_def split_beta)
  qed
  then show ?thesis using assms by (simp add: df_wide_def)
qed

lemma filter_rows_concat:
  assumes "distinct (map fst items)" and "(rid, pairs) \<in> set items"
  shows "filter (\<lambda>r. fst r = rid) (map (wide_row all_fields) (concat (map (rows_of df all_fields) items))) =
     map (wide_row all_fields) (rows_of df all_fields (rid, pairs))"
  using assms
proof (induction items)
  case Nil
  then show ?case by simp
next
  case (Cons item items)
  obtain k p where item: "item = (k, p)" by (cases item) auto
  have all: "filter (\<lambda>r. fst r = rid) (map (wide_row all_fields) (rows_of df all_fields (k', p'))) =
      (if k' = rid then map (wide_row all_fields) (rows_of df all_fields (k', p')) else [])" for k' p'
    by (auto simp: rows_of_def wide_row_def filter_map comp_def filter_empty_conv)
  have none: "rid \<notin> fst ` set its \<Longrightarrow>
      filter (\<lambda>r. fst r = rid) (map (wide_row all_fields) (concat (map (rows_of df all_fields) its))) = []" for its
  proof (induction its)
    case Nil
    then show ?case by simp
  next
    case (Cons a its)
    then show ?case using all[of "fst a" "snd a"] by auto
  qed
  show ?case
  proof (cases "k = rid")
    case True
    then have "p = pairs" using Cons.prems item by (auto simp: image_iff)
    moreover have "rid \<notin> fst ` set items" using Cons.prems(1) item True by simp
    ultimately show ?thesis using item True all[of k p] none[of items] by simp
  next
    case False
    then have "(rid, pairs) \<in> set items" using Cons.prems(2) item by auto
    then show ?thesis using Cons item False all[of k p] by simp
  qed
qed

lemma length_product_lists_prod: "length (product_lists xss) = prod_list (map length xss)"
  by (induction xss) (simp_all add: length_concat comp_def sum_list_triv)

lemma py_dict_zip_nth:
  assumes "distinct ks" and "length vs = length ks" and "i < length ks"
  shows "py_dict (zip ks vs) (ks ! i) = Some (vs ! i)"
proof -
  have "distinct (map fst (zip ks vs))" using assms(1,2) by (simp add: map_fst_zip)
  then have "map_of (rev (zip ks vs)) = map_of (zip ks vs)"
    by (subst map_of_inject_set) (simp_all add: rev_map[symmetric])
  then show ?thesis
    using assms by (simp add: py_dict_def map_of_zip_nth)
qed

lemma unique_distinct: "distinct xs \<Longrightarrow> unique xs = xs"
  by (simp add: unique_def distinct_remdups_id)

lemma distinct_variants_of: "distinct (variants_of ref_val grp fld)"
  by (simp add: variants_of_def)

lemma distinct_snd_field_explosions: "distinct (map snd (field_explosions parse fld ref_val grp))"
proof -
  let ?ex = "filter (explode_decision parse fld ref_val) (variants_of ref_val grp fld)"
  have "map snd (field_explosions parse fld ref_val grp) =
      ?ex @ (if fld \<in> set key_fields \<and> ?ex = [] then [ref_val] else [])"
    by (simp add: field_explosions_eq Let_def comp_def)
  moreover have "distinct ?ex" by (simp add: distinct_variants_of)
  ultimately show ?thesis by (cases "fld \<in> set key_fields \<and> ?ex = []") simp_all
qed

lemma grouped_cell_out_of:
  assumes "distinct all_fields" and "fld \<in> set all_fields"
  shows "grouped_cell (out_of parse df all_fields rid) fld =
     map snd (field_explosions parse fld (last (column (group_rows df rid) fld)) (group_rows df rid))"
proof -
  have "filter (\<lambda>(f, v). f = fld) (out_of parse df all_fields rid) =
      filter (\<lambda>p. fst p = fld) (out_of parse df all_fields rid)"
    by (rule arg_cong[of _ _ "\<lambda>P. filter P (out_of parse df all_fields rid)"]) auto
  also have "\<dots> = field_explosions parse fld (last (column (group_rows df rid) fld)) (group_rows df rid)"
    unfolding out_of_def
    using filter_field_concat[OF assms, of parse "\<lambda>f. last (column (group_rows df rid) f)" "group_rows df rid"] .
  finally show ?thesis
    by (simp add: grouped_cell_def unique_distinct distinct_snd_field_explosions)
qed

lemma items_keys:
  "explosions_by_id parse df all_fields = Inr items \<Longrightarrow>
   distinct (map fst items) \<and>
   (\<forall>item \<in> set items. fst item \<in> set (group_keys df) \<and> snd item = out_of parse df all_fields (fst item))"
proof -
  assume "explosions_by_id parse df all_fields = Inr items"
  then have i: "items = filter (\<lambda>(rid, out). out \<noteq> [])
            (map (\<lambda>rid. (rid, out_of parse df all_fields rid)) (group_keys df))"
    by (simp add: explosions_by_id_eq)
  have "map fst (map (\<lambda>rid. (rid, out_of parse df all_fields rid)) (group_keys df)) = group_keys df"
    by (simp add: comp_def)
  then have "distinct (map fst (map (\<lambda>rid. (rid, out_of parse df all_fields rid)) (group_keys df)))"
    by simp
  then have "distinct (map fst items)"
    unfolding i by (rule distinct_map_filter)
  moreover have "\<forall>item \<in> set items. fst item \<in> set (group_keys df) \<and> snd item = out_of parse df all_fields (fst item)"
    unfolding i by auto
  ultimately show ?thesis by blast
qed

text \<open>
  Claim C5. For an identifier of the frame, with distinct field names of which one is a key
  field (the script configures the three of them, so that every identifier has an entry in
  \<^verbatim>\<open>explosions_by_id\<close>): the list of a field is the list of its exploded values when
  there are any and the reference alone otherwise; every list has at least one element;
  the rows of the identifier in \<^verbatim>\<open>df_wide\<close> are, in order, one row per tuple of the
  product of the lists, the cell of a field being the component of the tuple at the
  position of the field; their number is the product of the lengths of the lists; and the
  columns are \<^verbatim>\<open>id\<close> followed by the field names in ascending order.
\<close>

theorem combinations_are_product:
  assumes "rid \<in> row_id ` set df" and "distinct all_fields"
    and "list_ex (\<lambda>f. f \<in> set key_fields) all_fields"
  shows "\<exists>items pairs vls rows.
     explosions_by_id parse df all_fields = Inr items \<and> (rid, pairs) \<in> set items \<and>
     mapM (variant_list df rid pairs) all_fields = Inr vls \<and>
     length vls = length all_fields \<and>
     (\<forall>i < length all_fields. \<exists>ref_val.
        reference_by_id df (all_fields ! i) rid = Some ref_val \<and>
        grouped_cell pairs (all_fields ! i) =
          map snd (field_explosions parse (all_fields ! i) ref_val (group_rows df rid)) \<and>
        vls ! i = (if grouped_cell pairs (all_fields ! i) \<noteq> [] then grouped_cell pairs (all_fields ! i)
                   else [ref_val])) \<and>
     (\<forall>l \<in> set vls. 1 \<le> length l) \<and>
     df_wide parse df all_fields = Inr rows \<and>
     filter (\<lambda>r. fst r = rid) rows =
       map (\<lambda>combo. (rid, map (py_dict (zip all_fields combo)) (sort all_fields))) (product_lists vls) \<and>
     (\<forall>combo \<in> set (product_lists vls). \<forall>i < length all_fields.
        py_dict (zip all_fields combo) (all_fields ! i) = Some (combo ! i)) \<and>
     length (filter (\<lambda>r. fst r = rid) rows) = prod_list (map length vls) \<and>
     df_wide_columns all_fields = ''id'' # sort all_fields \<and>
     sorted (sort all_fields) \<and> mset (sort all_fields) = mset all_fields"
proof -
  define items where "items = filter (\<lambda>(rid, out). out \<noteq> [])
            (map (\<lambda>rid. (rid, out_of parse df all_fields rid)) (group_keys df))"
  define pairs where "pairs = out_of parse df all_fields rid"
  define vls where "vls = vls_of df all_fields rid pairs"
  define rows where "rows = map (wide_row all_fields) (concat (map (rows_of df all_fields) items))"
  have key: "rid \<in> set (group_keys df)" using assms(1) by simp
  have E: "explosions_by_id parse df all_fields = Inr items"
    by (simp add: explosions_by_id_eq items_def)
  have mem: "(rid, pairs) \<in> set items"
    using key out_of_nonempty[OF assms(3), of parse df rid] by (auto simp: items_def pairs_def)
  then have ne: "items \<noteq> []" by auto
  have M: "mapM (variant_list df rid pairs) all_fields = Inr vls"
    unfolding vls_def vls_of_def by (rule mapM_Inr) (simp add: variant_list_eq[OF key])
  have len: "length vls = length all_fields" by (simp add: vls_def vls_of_def)
  have cells: "\<exists>ref_val.
        reference_by_id df (all_fields ! i) rid = Some ref_val \<and>
        grouped_cell pairs (all_fields ! i) =
          map snd (field_explosions parse (all_fields ! i) ref_val (group_rows df rid)) \<and>
        vls ! i = (if grouped_cell pairs (all_fields ! i) \<noteq> [] then grouped_cell pairs (all_fields ! i)
                   else [ref_val])" if "i < length all_fields" for i
  proof -
    have "reference_by_id df (all_fields ! i) rid = Some (last (column (group_rows df rid) (all_fields ! i)))"
      using key by (simp add: reference_by_id_eq)
    moreover have "grouped_cell pairs (all_fields ! i) =
          map snd (field_explosions parse (all_fields ! i) (last (column (group_rows df rid) (all_fields ! i))) (group_rows df rid))"
      unfolding pairs_def using that by (intro grouped_cell_out_of assms(2)) simp
    moreover have "vls ! i = (if grouped_cell pairs (all_fields ! i) \<noteq> [] then grouped_cell pairs (all_fields ! i)
                   else [last (column (group_rows df rid) (all_fields ! i))])"
      using that by (simp add: vls_def vls_of_def)
    ultimately show ?thesis by blast
  qed
  have pos: "\<forall>l \<in> set vls. 1 \<le> length l"
    by (auto simp: vls_def vls_of_def Suc_le_eq)
  have W: "df_wide parse df all_fields = Inr rows"
    unfolding rows_def by (rule df_wide_eq[OF E ne])
  have F: "filter (\<lambda>r. fst r = rid) rows =
       map (\<lambda>combo. (rid, map (py_dict (zip all_fields combo)) (sort all_fields))) (product_lists vls)"
    unfolding rows_def
    using filter_rows_concat[OF conjunct1[OF items_keys[OF E]] mem, of all_fields df]
    by (simp add: rows_of_def wide_row_def vls_def comp_def)
  have D: "\<forall>combo \<in> set (product_lists vls). \<forall>i < length all_fields.
        py_dict (zip all_fields combo) (all_fields ! i) = Some (combo ! i)"
  proof (intro ballI allI impI)
    fix combo i assume c: "combo \<in> set (product_lists vls)" and i: "i < length all_fields"
    from in_set_product_lists_length[OF c] len have "length combo = length all_fields" by simp
    from py_dict_zip_nth[OF assms(2) this i] show "py_dict (zip all_fields combo) (all_fields ! i) = Some (combo ! i)" .
  qed
  have L: "length (filter (\<lambda>r. fst r = rid) rows) = prod_list (map length vls)"
    unfolding F by (simp add: length_product_lists_prod)
  have C: "df_wide_columns all_fields = ''id'' # sort all_fields"
    by (simp add: df_wide_columns_def)
  show ?thesis
    using E mem M len cells pos W F D L C by (intro exI[of _ items] exI[of _ pairs] exI[of _ vls] exI[of _ rows]) simp
qed

theorem combinations_are_product_witness:
  "\<exists>(vls :: string list list) rows.
     df_wide scenario_parse two_ids_df [''postcode'', ''first_name''] = Inr rows \<and>
     (\<forall>l \<in> set vls. 1 \<le> length l) \<and>
     length (filter (\<lambda>r. fst r = 1) rows) = prod_list (map length vls) \<and>
     df_wide_columns [''postcode'', ''first_name''] = [''id'', ''first_name'', ''postcode'']"
proof -
  have h1: "1 \<in> row_id ` set two_ids_df"
    by (simp add: two_ids_df_def names_df_def mk_row_def)
  have h2: "distinct [''postcode'', ''first_name'']" by simp
  have h3: "list_ex (\<lambda>f. f \<in> set key_fields) [''postcode'', ''first_name'']"
    by (simp add: key_fields_def)
  have s: "sort [''postcode'', ''first_name''] = [''first_name'', ''postcode'']"
    by code_simp
  from combinations_are_product[OF h1 h2 h3, of scenario_parse] obtain vls rows where
    a: "df_wide scenario_parse two_ids_df [''postcode'', ''first_name''] = Inr rows"
    and b: "\<forall>l \<in> set (vls :: string list list). 1 \<le> length l"
    and c: "length (filter (\<lambda>r. fst r = 1) rows) = prod_list (map length vls)"
    and d: "df_wide_columns [''postcode'', ''first_name''] = ''id'' # sort [''postcode'', ''first_name'']"
    by (elim exE conjE) (rule that, assumption+)
  from d have "df_wide_columns [''postcode'', ''first_name''] = [''id'', ''first_name'', ''postcode'']"
    by (simp only: s)
  with a b c show ?thesis by blast
qed

end
